theory Spec2Isabelle
  imports Main
begin

section \<open>Characters and the string primitives of Python\<close>

text \<open>
  The notebook reads the data set with \<open>encoding = "ISO-8859-1"\<close>, so every character of a
  tweet is one of the 256 code points of Latin-1. A \<open>char\<close> stands for such a code point and
  a \<open>string\<close> for a Python \<open>str\<close>. The character classes below are those of Python 3 on
  that range: \<open>str.isspace\<close> (which is also \<open>\s\<close> of \<open>re\<close> and the separator set of
  \<open>str.split()\<close> and \<open>str.strip()\<close>), the word characters \<open>\w\<close> (alphanumeric or
  underscore), and the ASCII ranges written out in the patterns.
\<close>

definition is_space :: "char \<Rightarrow> bool" where
  "is_space c = (let n = (of_char c :: nat) in
     (9 \<le> n \<and> n \<le> 13) \<or> (28 \<le> n \<and> n \<le> 32) \<or> n = 133 \<or> n = 160)"

definition non_space :: "char \<Rightarrow> bool" where
  "non_space c = (\<not> is_space c)"

definition is_lower_az :: "char \<Rightarrow> bool" where
  "is_lower_az c = (let n = (of_char c :: nat) in 97 \<le> n \<and> n \<le> 122)"

definition is_upper_az :: "char \<Rightarrow> bool" where
  "is_upper_az c = (let n = (of_char c :: nat) in 65 \<le> n \<and> n \<le> 90)"

definition is_alpha_az :: "char \<Rightarrow> bool" where
  "is_alpha_az c = (is_lower_az c \<or> is_upper_az c)"

definition non_alpha :: "char \<Rightarrow> bool" where
  "non_alpha c = (\<not> is_alpha_az c)"

definition is_word :: "char \<Rightarrow> bool" where
  "is_word c = (let n = (of_char c :: nat) in
     (48 \<le> n \<and> n \<le> 57) \<or> (65 \<le> n \<and> n \<le> 90) \<or> n = 95 \<or> (97 \<le> n \<and> n \<le> 122)
     \<or> n = 170 \<or> n = 178 \<or> n = 179 \<or> n = 181 \<or> n = 185 \<or> n = 186
     \<or> (188 \<le> n \<and> n \<le> 190) \<or> (192 \<le> n \<and> n \<le> 214) \<or> (216 \<le> n \<and> n \<le> 246)
     \<or> 248 \<le> n)"

text \<open>\<open>str.lower()\<close>: the ASCII capitals and the Latin-1 capitals (all of 0xC0..0xDE but the
  multiplication sign 0xD7) move up by 32; every other code point stays.\<close>

definition lower_char :: "char \<Rightarrow> char" where
  "lower_char c = (let n = (of_char c :: nat) in
     if (65 \<le> n \<and> n \<le> 90) \<or> (192 \<le> n \<and> n \<le> 222 \<and> n \<noteq> 215) then char_of (n + 32) else c)"

definition py_lower :: "string \<Rightarrow> string" where
  "py_lower s = map lower_char s"

text \<open>\<open>str.split()\<close> without argument: the maximal runs of non-whitespace characters.\<close>

function py_split :: "string \<Rightarrow> string list" where
  "py_split s =
     (case dropWhile is_space s of
        [] \<Rightarrow> []
      | c # cs \<Rightarrow> (c # takeWhile non_space cs) # py_split (dropWhile non_space cs))"
  by pat_completeness auto
termination
proof (relation "measure length")
  show "wf (measure length)" by simp
next
  fix s :: string and c cs
  assume a: "dropWhile is_space s = c # cs"
  have "length (dropWhile non_space cs) \<le> length cs"
    by (rule length_dropWhile_le)
  moreover have "length (c # cs) \<le> length s"
    using length_dropWhile_le [of is_space s] a by simp
  ultimately show "(dropWhile non_space cs, s) \<in> measure length" by simp
qed

text \<open>\<open>sep.join(words)\<close>.\<close>

fun py_join :: "string \<Rightarrow> string list \<Rightarrow> string" where
  "py_join sep [] = []"
| "py_join sep [w] = w"
| "py_join sep (w # v # ws) = w @ sep @ py_join sep (v # ws)"

text \<open>\<open>str.strip()\<close>: whitespace is removed at both ends.\<close>

definition py_strip :: "string \<Rightarrow> string" where
  "py_strip s = rev (dropWhile is_space (rev (dropWhile is_space s)))"

section \<open>The regular expressions of Python's \<open>re\<close> that the notebook uses\<close>

text \<open>
  The constructs that occur in the notebook's patterns: \<open>.\<close> (any character but a newline),
  a character class, a literal string, concatenation, ordered alternation \<open>|\<close>, the greedy
  \<open>+\<close> and \<open>?\<close>, a numbered capturing group, a back-reference \<open>\1\<close>, and the word
  boundary \<open>\b\<close>.
\<close>

datatype regex =
    Dot
  | Cls "char \<Rightarrow> bool"
  | Lit string
  | Seq regex regex
  | Alt regex regex
  | Plus regex
  | Opt regex
  | Grp nat regex
  | Ref nat
  | Bnd

text \<open>
  A matcher state is the text before the current position (reversed, so that its head is the
  previous character), the text from the current position on, and the groups captured so
  far, the latest capture of a group first.
\<close>

type_synonym mstate = "string \<times> string \<times> (nat \<times> string) list"

definition at_boundary :: "string \<Rightarrow> string \<Rightarrow> bool" where
  "at_boundary b s =
     ((case b of [] \<Rightarrow> False | c # _ \<Rightarrow> is_word c) \<noteq> (case s of [] \<Rightarrow> False | c # _ \<Rightarrow> is_word c))"

text \<open>
  \<open>ms r st\<close> lists every way in which \<open>r\<close> matches at \<open>st\<close>, in the order in which a
  backtracking matcher tries them: the left alternative before the right one, one more
  repetition before stopping. Its head is the match that \<open>re\<close> reports. A repetition goes on
  only after an iteration that consumed a character (every repeated pattern of the notebook
  consumes one).
\<close>

function ms :: "regex \<Rightarrow> mstate \<Rightarrow> mstate list" where
  "ms Dot (b, s, g) =
     (case s of [] \<Rightarrow> [] | c # cs \<Rightarrow> if c \<noteq> CHR 0x0A then [(c # b, cs, g)] else [])"
| "ms (Cls P) (b, s, g) =
     (case s of [] \<Rightarrow> [] | c # cs \<Rightarrow> if P c then [(c # b, cs, g)] else [])"
| "ms (Lit w) (b, s, g) =
     (if take (length w) s = w then [(rev w @ b, drop (length w) s, g)] else [])"
| "ms (Seq p q) (b, s, g) = concat (map (\<lambda>st'. ms q st') (ms p (b, s, g)))"
| "ms (Alt p q) (b, s, g) = ms p (b, s, g) @ ms q (b, s, g)"
| "ms (Plus p) (b, s, g) =
     concat (map (\<lambda>(b', s', g').
                (if length s' < length s then ms (Plus p) (b', s', g') else []) @ [(b', s', g')])
             (ms p (b, s, g)))"
| "ms (Opt p) (b, s, g) = ms p (b, s, g) @ [(b, s, g)]"
| "ms (Grp n p) (b, s, g) =
     map (\<lambda>(b', s', g'). (b', s', (n, take (length s - length s') s) # g')) (ms p (b, s, g))"
| "ms (Ref n) (b, s, g) =
     (case map_of g n of
        None \<Rightarrow> []
      | Some w \<Rightarrow> if take (length w) s = w then [(rev w @ b, drop (length w) s, g)] else [])"
| "ms Bnd (b, s, g) = (if at_boundary b s then [(b, s, g)] else [])"
  by pat_completeness auto
termination
  by (relation "measures [\<lambda>(r, b, s, g). size r, \<lambda>(r, b, s, g). length s]") auto

text \<open>A match object: \<open>match.group(0)\<close> and the numbered groups; \<open>match_group m n\<close> is
  \<open>m.group(n)\<close> for \<open>n > 0\<close>, also the text that a template's \<open>\n\<close> stands for.\<close>

record rmatch =
  group0 :: string
  groups :: "(nat \<times> string) list"

definition match_group :: "rmatch \<Rightarrow> nat \<Rightarrow> string" where
  "match_group m n = (case map_of (groups m) n of None \<Rightarrow> [] | Some w \<Rightarrow> w)"

text \<open>
  \<open>re.sub(pattern, repl, text)\<close>: the text is scanned from the left; at each position the
  first match (if any) is replaced by \<open>repl\<close> of the match object and the scan goes on behind
  it; an unmatched character is copied. After an empty match the next character is copied.
\<close>

function sub_from :: "regex \<Rightarrow> (rmatch \<Rightarrow> string) \<Rightarrow> string \<Rightarrow> string \<Rightarrow> string" where
  "sub_from r repl b s =
     (case ms r (b, s, []) of
        [] \<Rightarrow> (case s of [] \<Rightarrow> [] | c # cs \<Rightarrow> c # sub_from r repl (c # b) cs)
      | (b', s', g') # _ \<Rightarrow>
          (let n = length s - length s' in
           if n = 0 then
             repl \<lparr>group0 = [], groups = g'\<rparr> @
               (case s of [] \<Rightarrow> [] | c # cs \<Rightarrow> c # sub_from r repl (c # b) cs)
           else repl \<lparr>group0 = take n s, groups = g'\<rparr> @
               sub_from r repl (rev (take n s) @ b) (drop n s)))"
  by pat_completeness auto
termination
  by (relation "measure (\<lambda>(r, repl, b, s). length s)") auto

definition re_sub :: "regex \<Rightarrow> (rmatch \<Rightarrow> string) \<Rightarrow> string \<Rightarrow> string" where
  "re_sub r repl s = sub_from r repl [] s"

section \<open>The external collaborators\<close>

text \<open>
  The notebook calls four things that are not its own code: \<open>contractions.fix\<close>, the list
  \<open>stopwords.words("english")\<close> of NLTK, \<open>nltk.pos_tag\<close> and
  \<open>WordNetLemmatizer.lemmatize\<close>. They are parameters of the model.
\<close>

record env =
  contractions_fix :: "string \<Rightarrow> string"
  stop_words :: "string list"
  pos_tag :: "string list \<Rightarrow> (string \<times> string) list"
  wn_lemmatize :: "string \<Rightarrow> string \<Rightarrow> string"

datatype error = IndexError

section \<open>The cleaning functions of the notebook\<close>

definition expand_contractions :: "env \<Rightarrow> string \<Rightarrow> string" where
  "expand_contractions E text = contractions_fix E text"

text \<open>\<open>email_re = r'\S+@\S+'\<close>\<close>

definition email_re :: regex where
  "email_re = Seq (Plus (Cls non_space)) (Seq (Lit ''@'') (Plus (Cls non_space)))"

text \<open>\<open>mention_hashtag_re = r'(@|#)\S+'\<close>\<close>

definition mention_hashtag_re :: regex where
  "mention_hashtag_re = Seq (Grp 1 (Alt (Lit ''@'') (Lit ''#''))) (Plus (Cls non_space))"

text \<open>\<open>link_re = r'((www\.\S+)|(https?://\S+))|(\S+\.com)'\<close>\<close>

definition link_re :: regex where
  "link_re =
     Alt (Grp 1 (Alt (Grp 2 (Seq (Lit ''www.'') (Plus (Cls non_space))))
                     (Grp 3 (Seq (Lit ''http'') (Seq (Opt (Lit ''s''))
                               (Seq (Lit ''://'') (Plus (Cls non_space))))))))
         (Grp 4 (Seq (Plus (Cls non_space)) (Lit ''.com'')))"

text \<open>\<open>repeating_suff_re = r'(.)\1\1+'\<close>\<close>

definition repeating_suff_re :: regex where
  "repeating_suff_re = Seq (Grp 1 Dot) (Seq (Ref 1) (Plus (Ref 1)))"

definition remove_noise_texts :: "string \<Rightarrow> string" where
  "remove_noise_texts text =
     (let text = re_sub repeating_suff_re (\<lambda>m. match_group m 1) text;
          text = re_sub email_re (\<lambda>m. []) text;
          text = re_sub mention_hashtag_re (\<lambda>m. []) text;
          text = re_sub link_re (\<lambda>m. []) text
      in text)"

definition remove_stopwords :: "env \<Rightarrow> string \<Rightarrow> bool \<Rightarrow> string" where
  "remove_stopwords E text neg_keep =
     (let stop_word_list =
            (if neg_keep
             then filter (\<lambda>word. word \<notin> set [''not'', ''no'', ''nor'']) (stop_words E)
             else stop_words E)
      in py_join '' '' (filter (\<lambda>word. word \<notin> set stop_word_list) (py_split text)))"

text \<open>
  The outer pattern is \<open>r'\b(?:not|no|never|cannot)\b\s+[a-z]+'\<close>. Its replacement is the
  function \<open>lambda match: re.sub(r'(\s+)(\w+)', r'\1NEG\2', match.group(0))\<close>, here
  \<open>neg_repl\<close> with the pattern \<open>space_word_re\<close> and the template \<open>neg_template\<close>.
\<close>

definition negation_re :: regex where
  "negation_re =
     Seq Bnd (Seq (Alt (Lit ''not'') (Alt (Lit ''no'') (Alt (Lit ''never'') (Lit ''cannot''))))
       (Seq Bnd (Seq (Plus (Cls is_space)) (Plus (Cls is_lower_az)))))"

definition space_word_re :: regex where
  "space_word_re = Seq (Grp 1 (Plus (Cls is_space))) (Grp 2 (Plus (Cls is_word)))"

definition neg_template :: "rmatch \<Rightarrow> string" where
  "neg_template m = match_group m 1 @ ''NEG'' @ match_group m 2"

definition neg_repl :: "rmatch \<Rightarrow> string" where
  "neg_repl match = re_sub space_word_re neg_template (group0 match)"

definition negation_handle :: "string \<Rightarrow> string" where
  "negation_handle text = re_sub negation_re neg_repl text"

text \<open>\<open>non_alpha_digit_re = r'[^a-zA-Z]'\<close>\<close>

definition non_alpha_digit_re :: regex where
  "non_alpha_digit_re = Cls non_alpha"

definition remove_non_alpha :: "string \<Rightarrow> string" where
  "remove_non_alpha text = re_sub non_alpha_digit_re (\<lambda>m. '' '') text"

text \<open>\<open>multi_spaces_re = r'\s\s+'\<close>\<close>

definition multi_spaces_re :: regex where
  "multi_spaces_re = Seq (Cls is_space) (Plus (Cls is_space))"

definition remove_spaces :: "string \<Rightarrow> string" where
  "remove_spaces text = re_sub multi_spaces_re (\<lambda>m. '' '') text"

definition remove_short_words :: "string \<Rightarrow> string" where
  "remove_short_words text = py_join '' '' (filter (\<lambda>word. length word > 1) (py_split text))"

text \<open>
  \<open>lemmatize\<close>: the loop over the tagged words. \<open>tag[0]\<close> raises \<open>IndexError\<close> on an empty
  tag.
\<close>

fun lemmatize_loop :: "env \<Rightarrow> (string \<times> string) list \<Rightarrow> error + string list" where
  "lemmatize_loop E [] = Inr []"
| "lemmatize_loop E ((word, tag) # rest) =
     (case tag of
        [] \<Rightarrow> Inl IndexError
      | t # _ \<Rightarrow>
          (let postag = py_lower [t];
               w = (if postag \<in> set [''a'', ''n'', ''v'', ''r'']
                    then wn_lemmatize E word postag else word)
           in case lemmatize_loop E rest of
                Inl e \<Rightarrow> Inl e
              | Inr result \<Rightarrow> Inr (w # result)))"

definition lemmatize :: "env \<Rightarrow> string \<Rightarrow> error + string" where
  "lemmatize E text =
     (case lemmatize_loop E (pos_tag E (py_split text)) of
        Inl e \<Rightarrow> Inl e
      | Inr result \<Rightarrow> Inr (py_join '' '' result))"

definition data_cleaning :: "env \<Rightarrow> string \<Rightarrow> bool \<Rightarrow> bool \<Rightarrow> bool \<Rightarrow> error + string" where
  "data_cleaning E text handle_neg remove_all_stopword is_lemmatized =
     (let text = py_lower text;
          text = expand_contractions E text;
          text = remove_noise_texts text;
          text = (if handle_neg then negation_handle (remove_stopwords E text True) else text);
          text = remove_non_alpha text;
          text = remove_short_words text;
          text = remove_spaces text
      in case (if is_lemmatized then lemmatize E text else Inr text) of
           Inl e \<Rightarrow> Inl e
         | Inr text \<Rightarrow>
             Inr (py_strip (if remove_all_stopword then remove_stopwords E text False else text)))"

section \<open>Saving the data: the cleaned columns and the removal of empty rows\<close>

text \<open>
  A data frame is the list of its rows. The notebook adds the two cleaned columns with
  \<open>df['text'].apply\<close>, selects the rows whose cleaned text is not the empty string with a
  boolean mask, keeps the cleaned column and the label, and saves the two columns as arrays.
\<close>

record tweet =
  label :: int
  tweet_text :: string

record row = tweet +
  neg_handled_text :: string
  normal_cleaned_text :: string

fun add_cleaned_columns :: "env \<Rightarrow> tweet list \<Rightarrow> error + row list" where
  "add_cleaned_columns E [] = Inr []"
| "add_cleaned_columns E (t # ts) =
     (case data_cleaning E (tweet_text t) True True False of
        Inl e \<Rightarrow> Inl e
      | Inr neg \<Rightarrow>
          (case data_cleaning E (tweet_text t) False False False of
             Inl e \<Rightarrow> Inl e
           | Inr normal \<Rightarrow>
               (case add_cleaned_columns E ts of
                  Inl e \<Rightarrow> Inl e
                | Inr rows \<Rightarrow>
                    Inr (\<lparr>label = label t, tweet_text = tweet_text t,
                          neg_handled_text = neg, normal_cleaned_text = normal\<rparr> # rows))))"

text \<open>\<open>df[keep]\<close> for a boolean column \<open>keep\<close>.\<close>

definition select_rows :: "bool list \<Rightarrow> 'a list \<Rightarrow> 'a list" where
  "select_rows keep rows = map snd (filter fst (zip keep rows))"

definition df_neg :: "row list \<Rightarrow> (string \<times> int) list" where
  "df_neg df = map (\<lambda>r. (neg_handled_text r, label r))
                 (select_rows (map (\<lambda>r. neg_handled_text r \<noteq> []) df) df)"

definition df_normal :: "row list \<Rightarrow> (string \<times> int) list" where
  "df_normal df = map (\<lambda>r. (normal_cleaned_text r, label r))
                    (select_rows (map (\<lambda>r. normal_cleaned_text r \<noteq> []) df) df)"

definition X_neg :: "row list \<Rightarrow> string list" where
  "X_neg df = map fst (df_neg df)"

definition y_neg :: "row list \<Rightarrow> int list" where
  "y_neg df = map snd (df_neg df)"

definition X_normal :: "row list \<Rightarrow> string list" where
  "X_normal df = map fst (df_normal df)"

definition y_normal :: "row list \<Rightarrow> int list" where
  "y_normal df = map snd (df_normal df)"

section \<open>What the specification says, as definitions\<close>

subsection \<open>The order of the stages\<close>





subsection \<open>The negation handler\<close>

text \<open>
  The specification's description of the negation handler, as a scan of its own: at a
  position, a cue occurs when one of the cue words stands there as a whole word (no word
  character right before it, none right after it) and is followed by whitespace and then by
  a lowercase word, the longest run of letters \<open>a\<close> to \<open>z\<close>. The scan copies the cue and
  the whitespace, writes the marker and the word, and goes on behind the word; where no cue
  occurs it copies one character.
\<close>

definition cue_words :: "string list" where
  "cue_words = [''not'', ''no'', ''never'', ''cannot'']"

definition starts_word :: "string \<Rightarrow> bool" where
  "starts_word s = (case s of [] \<Rightarrow> False | c # _ \<Rightarrow> is_word c)"

definition cue_at :: "string \<Rightarrow> string \<Rightarrow> string \<Rightarrow> bool" where
  "cue_at b s k =
     (take (length k) s = k \<and> \<not> starts_word b \<and> \<not> starts_word (drop (length k) s)
      \<and> takeWhile is_space (drop (length k) s) \<noteq> []
      \<and> takeWhile is_lower_az (dropWhile is_space (drop (length k) s)) \<noteq> [])"

definition cue_occurrence :: "string \<Rightarrow> string \<Rightarrow> (string \<times> string \<times> string) option" where
  "cue_occurrence b s =
     (case find (cue_at b s) cue_words of
        None \<Rightarrow> None
      | Some k \<Rightarrow>
          Some (k, takeWhile is_space (drop (length k) s),
                takeWhile is_lower_az (dropWhile is_space (drop (length k) s))))"

function neg_spec_from :: "string \<Rightarrow> string \<Rightarrow> string" where
  "neg_spec_from b s =
     (case cue_occurrence b s of
        Some (k, ws, word) \<Rightarrow>
          k @ ws @ ''NEG'' @ word
            @ neg_spec_from (rev (k @ ws @ word) @ b) (drop (length (k @ ws @ word)) s)
      | None \<Rightarrow> (case s of [] \<Rightarrow> [] | c # cs \<Rightarrow> c # neg_spec_from (c # b) cs))"
  by pat_completeness auto
termination
proof (relation "measure (\<lambda>(b, s). length s)")
  show "wf (measure (\<lambda>(b, s). length s))" by simp
next
  fix b s :: string and x2 k y ws word
  assume a: "cue_occurrence b s = Some x2" "(k, y) = x2" "(ws, word) = y"
  then obtain k' where k': "find (cue_at b s) cue_words = Some k'" and kk: "k = k'"
    by (auto simp: cue_occurrence_def split: option.splits)
  from k' have "k' \<in> set cue_words" and "cue_at b s k'"
    by (auto simp: find_Some_iff)
  then have "k \<noteq> []" and "take (length k) s = k"
    using kk by (auto simp: cue_words_def cue_at_def)
  then have "s \<noteq> []" by auto
  then show "((rev (k @ ws @ word) @ b, drop (length (k @ ws @ word)) s), (b, s))
               \<in> measure (\<lambda>(b, s). length s)"
    using \<open>k \<noteq> []\<close> by simp
next
  fix b s :: string and c cs
  assume "s = c # cs"
  then show "((c # b, cs), (b, s)) \<in> measure (\<lambda>(b, s). length s)" by simp
qed

definition neg_spec :: "string \<Rightarrow> string" where
  "neg_spec s = neg_spec_from [] s"

subsection \<open>The form of a cleaned text\<close>




section \<open>Sample collaborators\<close>

text \<open>
  Closed statements need the collaborators at hand. The stop words are the English list of
  NLTK's stop word corpus. The sample expander knows the contractions that occur in the
  notebook's examples, each between word boundaries. The sample tagger calls every word a
  noun and the sample lemmatizer changes nothing.
\<close>

definition nltk_english :: "string list" where
  "nltk_english =
     [''i'', ''me'', ''my'', ''myself'', ''we'', ''our'', ''ours'', ''ourselves'', ''you'',
      ''you're'', ''you've'', ''you'll'', ''you'd'', ''your'', ''yours'', ''yourself'',
      ''yourselves'', ''he'', ''him'', ''his'', ''himself'', ''she'', ''she's'', ''her'',
      ''hers'', ''herself'', ''it'', ''it's'', ''its'', ''itself'', ''they'', ''them'',
      ''their'', ''theirs'', ''themselves'', ''what'', ''which'', ''who'', ''whom'', ''this'',
      ''that'', ''that'll'', ''these'', ''those'', ''am'', ''is'', ''are'', ''was'', ''were'',
      ''be'', ''been'', ''being'', ''have'', ''has'', ''had'', ''having'', ''do'', ''does'',
      ''did'', ''doing'', ''a'', ''an'', ''the'', ''and'', ''but'', ''if'', ''or'',
      ''because'', ''as'', ''until'', ''while'', ''of'', ''at'', ''by'', ''for'', ''with'',
      ''about'', ''against'', ''between'', ''into'', ''through'', ''during'', ''before'',
      ''after'', ''above'', ''below'', ''to'', ''from'', ''up'', ''down'', ''in'', ''out'',
      ''on'', ''off'', ''over'', ''under'', ''again'', ''further'', ''then'', ''once'',
      ''here'', ''there'', ''when'', ''where'', ''why'', ''how'', ''all'', ''any'', ''both'',
      ''each'', ''few'', ''more'', ''most'', ''other'', ''some'', ''such'', ''no'', ''nor'',
      ''not'', ''only'', ''own'', ''same'', ''so'', ''than'', ''too'', ''very'', ''s'', ''t'',
      ''can'', ''will'', ''just'', ''don'', ''don't'', ''should'', ''should've'', ''now'',
      ''d'', ''ll'', ''m'', ''o'', ''re'', ''ve'', ''y'', ''ain'', ''aren'', ''aren't'',
      ''couldn'', ''couldn't'', ''didn'', ''didn't'', ''doesn'', ''doesn't'', ''hadn'',
      ''hadn't'', ''hasn'', ''hasn't'', ''haven'', ''haven't'', ''isn'', ''isn't'', ''ma'',
      ''mightn'', ''mightn't'', ''mustn'', ''mustn't'', ''needn'', ''needn't'', ''shan'',
      ''shan't'', ''shouldn'', ''shouldn't'', ''wasn'', ''wasn't'', ''weren'', ''weren't'',
      ''won'', ''won't'', ''wouldn'', ''wouldn't'']"

definition sample_contractions :: "(string \<times> string) list" where
  "sample_contractions =
     [(''dont'', ''do not''), (''don't'', ''do not''), (''can't'', ''cannot''),
      (''it's'', ''it is''), (''he's'', ''he is''), (''he'll'', ''he will'')]"

fun one_of :: "string list \<Rightarrow> regex" where
  "one_of [] = Lit []"
| "one_of [k] = Lit k"
| "one_of (k # ks) = Alt (Lit k) (one_of ks)"

definition sample_fix :: "string \<Rightarrow> string" where
  "sample_fix s =
     re_sub (Seq Bnd (Seq (Grp 1 (one_of (map fst sample_contractions))) Bnd))
       (\<lambda>m. case map_of sample_contractions (match_group m 1) of
              None \<Rightarrow> group0 m | Some v \<Rightarrow> v) s"

definition sample_env :: env where
  "sample_env =
     \<lparr>contractions_fix = sample_fix, stop_words = nltk_english,
      pos_tag = (\<lambda>ws. map (\<lambda>w. (w, ''NN'')) ws), wn_lemmatize = (\<lambda>w p. w)\<rparr>"

section \<open>The recorded examples\<close>

text \<open>The tweet of the notebook's final example, its expansion in lowercase, and the output
  that the notebook records for it.\<close>

definition tweet_example :: string where
  "tweet_example = ''Just got an email from prankster@troll.com, I think it's @Jordan's troll. He told me in the mail that he really don't like my dog, but he did like a cat. #IHateJordan''"

definition tweet_example_expanded :: string where
  "tweet_example_expanded = ''just got an email from prankster@troll.com, i think it is @jordan's troll. he told me in the mail that he really do not like my dog, but he did like a cat. #ihatejordan''"

definition tweet_example_cleaned :: string where
  "tweet_example_cleaned = ''just got an email from think it is troll he told me in the mail that he really do not like my dog but he did like cat''"

text \<open>The example of the specification for noise removal, written without whitespace.\<close>

definition noise_example :: string where
  "noise_example = ''...@someone_on_Twitter...feelingssssssssssss...#Tag''"

section \<open>Auxiliary notions\<close>

text \<open>Words as \<open>str.split()\<close> returns them: not empty and free of whitespace.\<close>

definition words_ok :: "string list \<Rightarrow> bool" where
  "words_ok ws = (\<forall>w \<in> set ws. w \<noteq> [] \<and> (\<forall>c \<in> set w. \<not> is_space c))"

text \<open>The text that reaches the non-alphabetic stage, and the words that the stages behind
  it keep.\<close>

definition pre_alpha :: "env \<Rightarrow> bool \<Rightarrow> string \<Rightarrow> string" where
  "pre_alpha E handle_neg text =
     (let t = remove_noise_texts (expand_contractions E (py_lower text))
      in if handle_neg then negation_handle (remove_stopwords E t True) else t)"

definition kept_words :: "env \<Rightarrow> bool \<Rightarrow> string list \<Rightarrow> string list" where
  "kept_words E remove_all_stopword ws =
     (let ws1 = filter (\<lambda>word. length word > 1) ws
      in if remove_all_stopword then filter (\<lambda>word. word \<notin> set (stop_words E)) ws1 else ws1)"

text \<open>The part of the negation pattern behind the cue word.\<close>

definition cue_tail_re :: regex where
  "cue_tail_re = Seq Bnd (Seq (Plus (Cls is_space)) (Plus (Cls is_lower_az)))"



section \<open>Proofs\<close>

declare sub_from.simps [simp del] py_split.simps [simp del] ms.simps(6) [simp del]
  neg_spec_from.simps [simp del]

subsection \<open>Strings\<close>

lemma space_is_space: "is_space CHR '' ''"
  by (simp add: is_space_def)

lemma py_split_Nil: "py_split [] = []"
  by (subst py_split.simps) simp

lemma py_split_space: "is_space c \<Longrightarrow> py_split (c # t) = py_split t"
  by (subst py_split.simps, subst (2) py_split.simps) simp

lemma takeWhile_all_append:
  "\<forall>c \<in> set w. P c \<Longrightarrow> \<not> P d \<Longrightarrow> takeWhile P (w @ d # t) = w"
  by (induction w) simp_all

lemma dropWhile_all_append:
  "\<forall>c \<in> set w. P c \<Longrightarrow> \<not> P d \<Longrightarrow> dropWhile P (w @ d # t) = d # t"
  by (induction w) simp_all

lemma py_split_word_space:
  assumes "w \<noteq> []" and "\<forall>c \<in> set w. \<not> is_space c" and "is_space d"
  shows "py_split (w @ d # t) = w # py_split t"
proof -
  from assms(1) obtain c cs where w: "w = c # cs" by (cases w) auto
  with assms(2) have c: "\<not> is_space c" and cs: "\<forall>x \<in> set cs. non_space x"
    by (auto simp: non_space_def)
  have d: "\<not> non_space d" using assms(3) by (simp add: non_space_def)
  have "py_split (w @ d # t) = (c # takeWhile non_space (cs @ d # t)) # py_split (dropWhile non_space (cs @ d # t))"
    using c w by (subst py_split.simps) simp
  also have "\<dots> = w # py_split (d # t)"
    using takeWhile_all_append [OF cs d] dropWhile_all_append [OF cs d] w by simp
  finally show ?thesis using assms(3) by (simp add: py_split_space)
qed

lemma py_split_word:
  assumes "w \<noteq> []" and "\<forall>c \<in> set w. \<not> is_space c"
  shows "py_split w = [w]"
proof -
  from assms(1) obtain c cs where w: "w = c # cs" by (cases w) auto
  with assms(2) have c: "\<not> is_space c" and cs: "\<forall>x \<in> set cs. non_space x"
    by (auto simp: non_space_def)
  have "py_split w = (c # takeWhile non_space cs) # py_split (dropWhile non_space cs)"
    using c w by (subst py_split.simps) simp
  moreover have "takeWhile non_space cs = cs" "dropWhile non_space cs = []"
    using cs by (simp_all add: takeWhile_eq_all_conv dropWhile_eq_Nil_conv)
  ultimately show ?thesis using w by (simp add: py_split_Nil)
qed

lemma py_split_words_ok: "words_ok (py_split s)"
proof (induction s rule: py_split.induct)
  case (1 s)
  show ?case
  proof (cases "dropWhile is_space s")
    case Nil
    have "py_split s = []" by (subst py_split.simps) (simp only: Nil list.case)
    then show ?thesis by (simp add: words_ok_def)
  next
    case (Cons c cs)
    have c: "\<not> is_space c"
      using hd_dropWhile [of is_space s] Cons by auto
    have t: "\<forall>x \<in> set (takeWhile non_space cs). \<not> is_space x"
      using set_takeWhileD [of _ non_space cs] by (auto simp: non_space_def)
    from "1.IH" [OF Cons] have ih: "words_ok (py_split (dropWhile non_space cs))" .
    have "py_split s = (c # takeWhile non_space cs) # py_split (dropWhile non_space cs)"
      by (subst py_split.simps) (simp only: Cons list.case)
    then show ?thesis
      using c t ih by (simp add: words_ok_def)
  qed
qed

lemma words_ok_filter: "words_ok ws \<Longrightarrow> words_ok (filter P ws)"
  by (auto simp: words_ok_def)

lemma py_split_join: "words_ok ws \<Longrightarrow> py_split (py_join '' '' ws) = ws"
proof (induction "'' ''" ws rule: py_join.induct)
  case 1
  show ?case by (simp add: py_split_Nil)
next
  case (2 w)
  then show ?case by (simp add: words_ok_def py_split_word)
next
  case (3 w v ws)
  from "3.prems" have w: "w \<noteq> []" "\<forall>c \<in> set w. \<not> is_space c" and r: "words_ok (v # ws)"
    by (auto simp: words_ok_def)
  have "py_split (py_join '' '' (w # v # ws)) = w # py_split (py_join '' '' (v # ws))"
    using py_split_word_space [OF w space_is_space] by simp
  then show ?case using "3.hyps" [OF r] by simp
qed

lemma py_join_ends:
  "words_ok ws \<Longrightarrow> ws \<noteq> [] \<Longrightarrow>
     py_join '' '' ws \<noteq> [] \<and> \<not> is_space (hd (py_join '' '' ws))
     \<and> \<not> is_space (last (py_join '' '' ws))"
proof (induction "'' ''" ws rule: py_join.induct)
  case 1
  then show ?case by simp
next
  case (2 w)
  then show ?case using hd_in_set [of w] last_in_set [of w] by (auto simp: words_ok_def)
next
  case (3 w v ws)
  from "3.prems" have w: "w \<noteq> []" "\<forall>c \<in> set w. \<not> is_space c" and r: "words_ok (v # ws)"
    by (auto simp: words_ok_def)
  from "3.hyps" [OF r] have ih: "py_join '' '' (v # ws) \<noteq> []"
    "\<not> is_space (last (py_join '' '' (v # ws)))" by auto
  from w have "\<not> is_space (hd w)" by (simp add: hd_in_set)
  then show ?case using w ih by simp
qed

lemma py_strip_id:
  assumes "s = [] \<or> (\<not> is_space (hd s) \<and> \<not> is_space (last s))"
  shows "py_strip s = s"
proof (cases s)
  case Nil
  then show ?thesis by (simp add: py_strip_def)
next
  case (Cons c cs)
  with assms have h: "\<not> is_space c" and l: "\<not> is_space (last s)" by auto
  have "dropWhile is_space s = s" using h Cons by simp
  moreover have "dropWhile is_space (rev s) = rev s"
  proof -
    from Cons obtain a r where ar: "rev s = a # r" by (cases "rev s") auto
    then have "a = last s" using hd_rev [of s] by simp
    then show ?thesis using l ar by (simp only: dropWhile.simps) simp
  qed
  ultimately show ?thesis by (simp add: py_strip_def)
qed

lemma py_strip_join: "words_ok ws \<Longrightarrow> py_strip (py_join '' '' ws) = py_join '' '' ws"
proof (cases "ws = []")
  case True
  then show ?thesis by (simp add: py_strip_def)
next
  case False
  assume "words_ok ws"
  from py_join_ends [OF this False] show ?thesis by (intro py_strip_id) simp
qed



lemma rev_upt_Suc: "rev [1..<Suc (Suc k)] = map Suc (rev [1..<Suc k]) @ [1]"
proof -
  have "[1..<Suc (Suc k)] = 1 # map Suc [1..<Suc k]"
    using upt_conv_Cons [of 1 "Suc (Suc k)"] map_Suc_upt [of 1 "Suc k"] by simp
  then show ?thesis by (simp add: rev_map)
qed

lemma ms_Plus_Cls:
  "ms (Plus (Cls P)) (b, s, g)
     = map (\<lambda>n. (rev (take n s) @ b, drop n s, g)) (rev [1..<Suc (length (takeWhile P s))])"
proof (induction s arbitrary: b)
  case Nil
  show ?case by (simp add: ms.simps(6))
next
  case (Cons c cs)
  show ?case
  proof (cases "P c")
    case False
    then show ?thesis by (simp add: ms.simps(6))
  next
    case True
    have "ms (Plus (Cls P)) (b, c # cs, g) = ms (Plus (Cls P)) (c # b, cs, g) @ [(c # b, cs, g)]"
      using True by (simp add: ms.simps(6) [of "Cls P" b "c # cs" g])
    also have "\<dots> = map (\<lambda>n. (rev (take n cs) @ c # b, drop n cs, g))
                       (rev [1..<Suc (length (takeWhile P cs))]) @ [(c # b, cs, g)]"
      by (simp only: Cons.IH)
    also have "\<dots> = map (\<lambda>n. (rev (take n (c # cs)) @ b, drop n (c # cs), g))
                       (rev [1..<Suc (Suc (length (takeWhile P cs)))])"
      by (simp only: rev_upt_Suc) (simp add: comp_def)
    finally show ?thesis using True by (simp only: takeWhile.simps if_True length_Cons)
  qed
qed

subsection \<open>Stages\<close>


lemma sub_from_Cls:
  "sub_from (Cls P) (\<lambda>m. r) b s = concat (map (\<lambda>c. if P c then r else [c]) s)"
proof (induction s arbitrary: b)
  case Nil
  show ?case by (subst sub_from.simps) simp
next
  case (Cons c cs)
  show ?case by (subst sub_from.simps) (simp add: Cons.IH)
qed

lemma remove_non_alpha_map:
  "remove_non_alpha s = map (\<lambda>c. if non_alpha c then CHR '' '' else c) s"
proof -
  have "concat (map (\<lambda>c. if non_alpha c then '' '' else [c]) s)
          = map (\<lambda>c. if non_alpha c then CHR '' '' else c) s"
    by (induction s) simp_all
  then show ?thesis
    by (simp add: remove_non_alpha_def re_sub_def non_alpha_digit_re_def sub_from_Cls)
qed

lemma non_alpha_space: "non_alpha CHR '' ''"
  by (simp add: non_alpha_def is_alpha_az_def is_lower_az_def is_upper_az_def)

text \<open>
  C8. Non-alphabetic stripping is idempotent: running \<open>remove_non_alpha\<close> on its own
  output changes nothing.
\<close>

theorem remove_non_alpha_idempotent:
  "remove_non_alpha (remove_non_alpha s) = remove_non_alpha s"
  by (simp add: remove_non_alpha_map non_alpha_space)




lemma select_rows_filter: "select_rows (map P rows) rows = filter P rows"
  by (induction rows) (simp_all add: select_rows_def)

lemma data_cleaning_unlemmatized:
  "\<exists>out. data_cleaning E t hn ra False = Inr out"
  by (simp add: data_cleaning_def Let_def)

lemma add_cleaned_columns_total:
  "\<exists>rows. add_cleaned_columns E df = Inr rows"
proof (induction df)
  case Nil
  show ?case by simp
next
  case (Cons t ts)
  obtain a where a: "data_cleaning E (tweet_text t) True True False = Inr a"
    using data_cleaning_unlemmatized by blast
  obtain c where c: "data_cleaning E (tweet_text t) False False False = Inr c"
    using data_cleaning_unlemmatized by blast
  from Cons obtain rows where "add_cleaned_columns E ts = Inr rows" by blast
  with a c show ?case by simp
qed

lemma add_cleaned_columns_rows:
  "add_cleaned_columns E df = Inr rows \<Longrightarrow>
     map label rows = map label df \<and> map tweet_text rows = map tweet_text df
     \<and> map (\<lambda>r. Inr (neg_handled_text r)) rows = map (\<lambda>t. data_cleaning E (tweet_text t) True True False) df
     \<and> map (\<lambda>r. Inr (normal_cleaned_text r)) rows = map (\<lambda>t. data_cleaning E (tweet_text t) False False False) df"
proof (induction df arbitrary: rows)
  case Nil
  then show ?case by simp
next
  case (Cons t ts)
  then show ?case by (auto split: sum.splits)
qed

text \<open>
  C9. The cleaned columns are computed for every frame; the rows that are saved are exactly
  the rows whose cleaned text is not empty, in their order, and the saved text and the saved
  label at an index come from the same row, so from the same tweet.
\<close>

theorem empty_rows_removed_aligned:
  "\<exists>rows. add_cleaned_columns E df = Inr rows
     \<and> map label rows = map label df
     \<and> map (\<lambda>r. Inr (neg_handled_text r)) rows
         = map (\<lambda>t. data_cleaning E (tweet_text t) True True False) df
     \<and> map (\<lambda>r. Inr (normal_cleaned_text r)) rows
         = map (\<lambda>t. data_cleaning E (tweet_text t) False False False) df
     \<and> zip (X_neg rows) (y_neg rows)
         = map (\<lambda>r. (neg_handled_text r, label r)) (filter (\<lambda>r. neg_handled_text r \<noteq> []) rows)
     \<and> length (X_neg rows) = length (y_neg rows)
     \<and> zip (X_normal rows) (y_normal rows)
         = map (\<lambda>r. (normal_cleaned_text r, label r))
             (filter (\<lambda>r. normal_cleaned_text r \<noteq> []) rows)
     \<and> length (X_normal rows) = length (y_normal rows)"
proof -
  obtain rows where r: "add_cleaned_columns E df = Inr rows"
    using add_cleaned_columns_total by blast
  have n1: "zip (X_neg rows) (y_neg rows) = df_neg rows"
    by (simp add: X_neg_def y_neg_def zip_map_fst_snd)
  have n2: "df_neg rows
      = map (\<lambda>r. (neg_handled_text r, label r)) (filter (\<lambda>r. neg_handled_text r \<noteq> []) rows)"
    by (simp add: df_neg_def select_rows_filter)
  have n3: "length (X_neg rows) = length (y_neg rows)"
    by (simp add: X_neg_def y_neg_def)
  have m1: "zip (X_normal rows) (y_normal rows) = df_normal rows"
    by (simp add: X_normal_def y_normal_def zip_map_fst_snd)
  have m2: "df_normal rows
      = map (\<lambda>r. (normal_cleaned_text r, label r))
          (filter (\<lambda>r. normal_cleaned_text r \<noteq> []) rows)"
    by (simp add: df_normal_def select_rows_filter)
  have m3: "length (X_normal rows) = length (y_normal rows)"
    by (simp add: X_normal_def y_normal_def)
  show ?thesis
    using r add_cleaned_columns_rows [OF r] n1 n2 n3 m1 m2 m3 by simp
qed

lemma sub_from_Nil: "ms r (b, [], []) = [] \<Longrightarrow> sub_from r repl b [] = []"
  by (subst sub_from.simps) simp

lemma sub_from_copy:
  "ms r (b, c # cs, []) = [] \<Longrightarrow> sub_from r repl b (c # cs) = c # sub_from r repl (c # b) cs"
  by (subst sub_from.simps) simp

lemma ms_multi_spaces_Nil: "ms multi_spaces_re (b, [], g) = []"
  by (simp add: multi_spaces_re_def)

lemma ms_multi_spaces_non_space: "\<not> is_space c \<Longrightarrow> ms multi_spaces_re (b, c # t, g) = []"
  by (simp add: multi_spaces_re_def)

lemma ms_multi_spaces_single:
  "\<not> is_space d \<Longrightarrow> ms multi_spaces_re (b, c # d # t, g) = []"
  by (simp add: multi_spaces_re_def ms_Plus_Cls)

lemma remove_spaces_copy_word:
  "\<forall>c \<in> set w. \<not> is_space c \<Longrightarrow>
     sub_from multi_spaces_re repl b (w @ t) = w @ sub_from multi_spaces_re repl (rev w @ b) t"
proof (induction w arbitrary: b)
  case Nil
  show ?case by simp
next
  case (Cons c w)
  then show ?case
    by (simp add: sub_from_copy [OF ms_multi_spaces_non_space])
qed

lemma remove_spaces_join_from:
  "words_ok ws \<Longrightarrow> sub_from multi_spaces_re repl b (py_join '' '' ws) = py_join '' '' ws"
proof (induction "'' ''" ws arbitrary: b rule: py_join.induct)
  case 1
  show ?case by (simp add: sub_from_Nil ms_multi_spaces_Nil)
next
  case (2 w)
  then have "\<forall>c \<in> set w. \<not> is_space c" by (simp add: words_ok_def)
  from remove_spaces_copy_word [OF this, of repl b "[]"] show ?case
    by (simp add: sub_from_Nil ms_multi_spaces_Nil)
next
  case (3 w v ws)
  from "3.prems" have w: "\<forall>c \<in> set w. \<not> is_space c" and r: "words_ok (v # ws)"
    by (auto simp: words_ok_def)
  from py_join_ends [OF r] obtain d t where dt: "py_join '' '' (v # ws) = d # t" "\<not> is_space d"
    by (cases "py_join '' '' (v # ws)") auto
  have "sub_from multi_spaces_re repl b (py_join '' '' (w # v # ws))
          = w @ sub_from multi_spaces_re repl (rev w @ b) (CHR '' '' # d # t)"
    using remove_spaces_copy_word [OF w] dt by simp
  also have "\<dots> = w @ CHR '' '' # sub_from multi_spaces_re repl (CHR '' '' # rev w @ b) (d # t)"
    using sub_from_copy [OF ms_multi_spaces_single [OF dt(2)]] by simp
  also have "\<dots> = w @ CHR '' '' # py_join '' '' (v # ws)"
    using "3.hyps" [OF r] dt by simp
  finally show ?case by simp
qed

lemma remove_spaces_join: "words_ok ws \<Longrightarrow> remove_spaces (py_join '' '' ws) = py_join '' '' ws"
  by (simp add: remove_spaces_def re_sub_def remove_spaces_join_from)

lemma data_cleaning_join:
  "data_cleaning E text hn ra False
     = Inr (py_join '' '' (kept_words E ra (py_split (remove_non_alpha (pre_alpha E hn text)))))"
proof -
  define ws where "ws = filter (\<lambda>word. length word > 1) (py_split (remove_non_alpha (pre_alpha E hn text)))"
  have ok: "words_ok ws"
    unfolding ws_def by (intro words_ok_filter py_split_words_ok)
  have t7: "remove_spaces (remove_short_words (remove_non_alpha (pre_alpha E hn text))) = py_join '' '' ws"
    using remove_spaces_join [OF ok] by (simp add: remove_short_words_def ws_def)
  have st: "remove_stopwords E (py_join '' '' ws) False
              = py_join '' '' (filter (\<lambda>word. word \<notin> set (stop_words E)) ws)"
    by (simp add: remove_stopwords_def py_split_join [OF ok])
  have "data_cleaning E text hn ra False
          = Inr (py_strip (if ra then remove_stopwords E (py_join '' '' ws) False else py_join '' '' ws))"
    using t7 by (simp add: data_cleaning_def pre_alpha_def Let_def)
  also have "\<dots> = Inr (py_join '' '' (if ra then filter (\<lambda>word. word \<notin> set (stop_words E)) ws else ws))"
  proof (cases ra)
    case True
    then show ?thesis using py_strip_join [OF words_ok_filter [OF ok]] by (simp only: st if_True)
  next
    case False
    then show ?thesis using py_strip_join [OF ok] by (simp only: if_False)
  qed
  also have "(if ra then filter (\<lambda>word. word \<notin> set (stop_words E)) ws else ws)
               = kept_words E ra (py_split (remove_non_alpha (pre_alpha E hn text)))"
    by (simp add: kept_words_def ws_def Let_def)
  finally show ?thesis .
qed

lemma kept_words_ok: "words_ok ws \<Longrightarrow> words_ok (kept_words E ra ws)"
  by (simp add: kept_words_def Let_def words_ok_filter)

lemma py_split_data_cleaning:
  "data_cleaning E text hn ra False = Inr out \<Longrightarrow>
     py_split out = kept_words E ra (py_split (remove_non_alpha (pre_alpha E hn text)))
     \<and> out = py_join '' '' (py_split out)"
proof -
  assume "data_cleaning E text hn ra False = Inr out"
  then have o: "out = py_join '' '' (kept_words E ra (py_split (remove_non_alpha (pre_alpha E hn text))))"
    by (simp add: data_cleaning_join)
  have "py_split out = kept_words E ra (py_split (remove_non_alpha (pre_alpha E hn text)))"
    unfolding o by (rule py_split_join [OF kept_words_ok [OF py_split_words_ok]])
  with o show ?thesis by simp
qed

text \<open>
  C10. Without lemmatization every token of the text that \<open>data_cleaning\<close> returns has at
  least two characters.
\<close>

theorem no_one_letter_token:
  "\<exists>out. data_cleaning E text handle_neg remove_all_stopword False = Inr out
        \<and> list_all (\<lambda>w. 2 \<le> length w) (py_split out)"
proof -
  obtain out where out: "data_cleaning E text handle_neg remove_all_stopword False = Inr out"
    by (simp add: data_cleaning_join)
  from py_split_data_cleaning [OF out]
  have "list_all (\<lambda>w. 2 \<le> length w) (py_split out)"
    by (auto simp: kept_words_def Let_def list_all_iff)
  with out show ?thesis by blast
qed

subsection \<open>The negation handler\<close>

lemma space_not_lower: "is_space c \<Longrightarrow> \<not> is_lower_az c"
  by (auto simp: is_space_def is_lower_az_def Let_def)

lemma space_not_word: "is_space c \<Longrightarrow> \<not> is_word c"
  by (auto simp: is_space_def is_word_def Let_def)

lemma lower_is_word: "is_lower_az c \<Longrightarrow> is_word c"
  by (auto simp: is_lower_az_def is_word_def Let_def)

lemma lower_not_space: "is_lower_az c \<Longrightarrow> \<not> is_space c"
  using space_not_lower by blast

lemma concat_map_Nil: "(\<And>x. x \<in> set xs \<Longrightarrow> f x = []) \<Longrightarrow> concat (map f xs) = []"
  by (induction xs) simp_all

lemma rev_upt_Cons: "0 < k \<Longrightarrow> rev [1..<Suc k] = k # rev [1..<k]"
  by (cases k) simp_all

lemma ms_Plus_Cls_Nil: "takeWhile P s = [] \<Longrightarrow> ms (Plus (Cls P)) (b, s, g) = []"
  by (simp add: ms_Plus_Cls)

lemma ms_Plus_Cls_Cons:
  assumes "takeWhile P s \<noteq> []"
  shows "ms (Plus (Cls P)) (b, s, g)
           = (rev (takeWhile P s) @ b, dropWhile P s, g)
             # map (\<lambda>n. (rev (take n s) @ b, drop n s, g)) (rev [1..<length (takeWhile P s)])"
proof -
  let ?k = "length (takeWhile P s)"
  have k: "0 < ?k" using assms by simp
  let ?f = "\<lambda>n. (rev (take n s) @ b, drop n s, g)"
  have td: "take ?k s = takeWhile P s" "drop ?k s = dropWhile P s"
    by (simp_all add: takeWhile_eq_take [symmetric] dropWhile_eq_drop [symmetric])
  have "ms (Plus (Cls P)) (b, s, g) = map ?f (rev [1..<Suc ?k])"
    by (rule ms_Plus_Cls)
  also have "\<dots> = map ?f (?k # rev [1..<?k])"
    by (simp only: rev_upt_Cons [OF k])
  also have "\<dots> = (rev (takeWhile P s) @ b, dropWhile P s, g) # map ?f (rev [1..<?k])"
    by (simp only: list.map td)
  finally show ?thesis .
qed

lemma takeWhile_drop_inside:
  assumes "1 \<le> n" and "n < length (takeWhile P s)"
  shows "drop n s \<noteq> [] \<and> P (hd (drop n s))"
proof -
  have n: "n < length s" using assms(2) length_takeWhile_le [of P s] by simp
  have "P (s ! n)"
    using assms(2) nth_mem [OF assms(2)] set_takeWhileD [of "takeWhile P s ! n" P s]
      takeWhile_nth [OF assms(2)] by simp
  then show ?thesis using n by (simp add: hd_drop_conv_nth)
qed

text \<open>The tail of the outer pattern: whitespace, then lowercase letters.\<close>

lemma ms_space_lower_Nil:
  assumes "takeWhile is_space s = [] \<or> takeWhile is_lower_az (dropWhile is_space s) = []"
  shows "ms (Seq (Plus (Cls is_space)) (Plus (Cls is_lower_az))) (b, s, g) = []"
proof (cases "takeWhile is_space s = []")
  case True
  then show ?thesis by (simp add: ms_Plus_Cls_Nil)
next
  case False
  with assms have w: "takeWhile is_lower_az (dropWhile is_space s) = []" by simp
  have short: "ms (Plus (Cls is_lower_az)) (rev (take n s) @ b, drop n s, g) = []"
    if "n \<in> set (rev [1..<length (takeWhile is_space s)])" for n
  proof -
    from that have "1 \<le> n" "n < length (takeWhile is_space s)" by auto
    from takeWhile_drop_inside [OF this] have "takeWhile is_lower_az (drop n s) = []"
      by (cases "drop n s") (auto simp: space_not_lower)
    then show ?thesis by (rule ms_Plus_Cls_Nil)
  qed
  show ?thesis
    using w short by (simp add: ms_Plus_Cls_Cons [OF False] ms_Plus_Cls_Nil concat_map_Nil)
qed

lemma ms_space_lower_Cons:
  assumes "takeWhile is_space s \<noteq> []" and "takeWhile is_lower_az (dropWhile is_space s) \<noteq> []"
  shows "\<exists>r. ms (Seq (Plus (Cls is_space)) (Plus (Cls is_lower_az))) (b, s, g)
           = (rev (takeWhile is_lower_az (dropWhile is_space s)) @ rev (takeWhile is_space s) @ b,
              dropWhile is_lower_az (dropWhile is_space s), g) # r"
  by (simp add: ms_Plus_Cls_Cons [OF assms(1)] ms_Plus_Cls_Cons [OF assms(2)])


lemma at_boundary_starts: "at_boundary b s = (starts_word b \<noteq> starts_word s)"
  by (simp add: at_boundary_def starts_word_def)

lemma cue_word_ends:
  "k \<in> set cue_words \<Longrightarrow> k \<noteq> [] \<and> is_word (hd k) \<and> is_word (last k) \<and> (\<forall>c \<in> set k. \<not> is_space c)"
  by (auto simp: cue_words_def is_word_def is_space_def)

lemma starts_word_cue:
  assumes "k \<in> set cue_words"
  shows "starts_word (rev k @ b)" and "take (length k) s = k \<Longrightarrow> starts_word s"
proof -
  show "starts_word (rev k @ b)"
    using assms by (auto simp: cue_words_def starts_word_def is_word_def)
  from cue_word_ends [OF assms] have k: "k \<noteq> []" "is_word (hd k)" by auto
  assume t: "take (length k) s = k"
  from k(1) obtain d ds where d: "k = d # ds" by (cases k) auto
  with t obtain ss where "s = d # ss" by (cases s) auto
  then show "starts_word s" using k(2) d by (simp add: starts_word_def)
qed

lemma not_starts_word_space: "takeWhile is_space s \<noteq> [] \<Longrightarrow> \<not> starts_word s"
  by (cases s) (auto simp: starts_word_def space_not_word split: if_splits)

lemma ms_cue:
  assumes "k \<in> set cue_words"
  shows "ms (Seq (Lit k) cue_tail_re) (b, s, g)
     = (if take (length k) s = k \<and> \<not> starts_word (drop (length k) s)
        then ms (Seq (Plus (Cls is_space)) (Plus (Cls is_lower_az))) (rev k @ b, drop (length k) s, g)
        else [])"
  using starts_word_cue(1) [OF assms, of b]
  by (simp add: cue_tail_re_def at_boundary_starts)

lemma cue_match_Nil:
  assumes "k \<in> set cue_words" and "\<not> cue_at b s k" and "at_boundary b s"
  shows "ms (Seq (Lit k) cue_tail_re) (b, s, []) = []"
proof (cases "take (length k) s = k \<and> \<not> starts_word (drop (length k) s)")
  case False
  then show ?thesis by (subst ms_cue [OF assms(1)]) auto
next
  case True
  then have "starts_word s" using starts_word_cue(2) [OF assms(1)] by simp
  with assms(3) have "\<not> starts_word b" by (simp add: at_boundary_starts)
  with assms(2) True
  have "takeWhile is_space (drop (length k) s) = []
          \<or> takeWhile is_lower_az (dropWhile is_space (drop (length k) s)) = []"
    by (auto simp: cue_at_def)
  from ms_space_lower_Nil [OF this] show ?thesis
    using True by (subst ms_cue [OF assms(1)]) simp
qed

lemma cue_match_Cons:
  assumes "k \<in> set cue_words" and "cue_at b s k"
  shows "at_boundary b s"
    and "\<exists>r. ms (Seq (Lit k) cue_tail_re) (b, s, [])
           = (rev (takeWhile is_lower_az (dropWhile is_space (drop (length k) s)))
                @ rev (takeWhile is_space (drop (length k) s)) @ rev k @ b,
              dropWhile is_lower_az (dropWhile is_space (drop (length k) s)), []) # r"
proof -
  from assms(2) have c: "take (length k) s = k" "\<not> starts_word b"
    "\<not> starts_word (drop (length k) s)"
    "takeWhile is_space (drop (length k) s) \<noteq> []"
    "takeWhile is_lower_az (dropWhile is_space (drop (length k) s)) \<noteq> []"
    by (auto simp: cue_at_def)
  from starts_word_cue(2) [OF assms(1) c(1)] c(2) show "at_boundary b s"
    by (simp add: at_boundary_starts)
  from ms_space_lower_Cons [OF c(4) c(5), of "rev k @ b" "[]"]
  show "\<exists>r. ms (Seq (Lit k) cue_tail_re) (b, s, [])
           = (rev (takeWhile is_lower_az (dropWhile is_space (drop (length k) s)))
                @ rev (takeWhile is_space (drop (length k) s)) @ rev k @ b,
              dropWhile is_lower_az (dropWhile is_space (drop (length k) s)), []) # r"
    using c(1) c(3) by (subst ms_cue [OF assms(1)]) simp
qed

lemma ms_Seq_Bnd:
  "ms (Seq Bnd r) (b, s, g) = (if at_boundary b s then ms r (b, s, g) else [])"
  by simp

lemma ms_Seq_Alt:
  "ms (Seq (Alt p q) t) (b, s, g) = ms (Seq p t) (b, s, g) @ ms (Seq q t) (b, s, g)"
  by simp

lemma ms_negation_re:
  "ms negation_re (b, s, [])
     = (if at_boundary b s
        then concat (map (\<lambda>k. ms (Seq (Lit k) cue_tail_re) (b, s, [])) cue_words) else [])"
proof -
  have eq: "negation_re
          = Seq Bnd (Seq (Alt (Lit ''not'') (Alt (Lit ''no'') (Alt (Lit ''never'') (Lit ''cannot''))))
              cue_tail_re)"
    by (simp add: negation_re_def cue_tail_re_def)
  show ?thesis
    unfolding eq
    by (simp only: ms_Seq_Bnd ms_Seq_Alt cue_words_def list.map concat.simps append_Nil2
        append_assoc)
qed

lemma find_Some_split:
  "find P xs = Some x \<Longrightarrow> \<exists>pre post. xs = pre @ x # post \<and> P x \<and> (\<forall>y \<in> set pre. \<not> P y)"
proof (induction xs)
  case Nil
  then show ?case by simp
next
  case (Cons a xs)
  show ?case
  proof (cases "P a")
    case True
    with Cons.prems have "a = x" by simp
    with True have "a # xs = [] @ x # xs \<and> P x \<and> (\<forall>y \<in> set []. \<not> P y)" by simp
    then show ?thesis by blast
  next
    case False
    with Cons obtain pre post where "xs = pre @ x # post" "P x" "\<forall>y \<in> set pre. \<not> P y" by auto
    with False have "a # xs = (a # pre) @ x # post \<and> P x \<and> (\<forall>y \<in> set (a # pre). \<not> P y)" by simp
    then show ?thesis by blast
  qed
qed

lemma negation_no_match:
  assumes "cue_occurrence b s = None"
  shows "ms negation_re (b, s, []) = []"
proof (cases "at_boundary b s")
  case False
  then show ?thesis by (simp add: ms_negation_re)
next
  case True
  from assms have "find (cue_at b s) cue_words = None"
    by (simp add: cue_occurrence_def split: option.splits)
  then have "\<forall>k \<in> set cue_words. \<not> cue_at b s k" by (simp add: find_None_iff)
  then have "\<And>k. k \<in> set cue_words \<Longrightarrow> ms (Seq (Lit k) cue_tail_re) (b, s, []) = []"
    using cue_match_Nil True by blast
  then show ?thesis by (simp add: ms_negation_re True concat_map_Nil)
qed

lemma negation_match:
  assumes "cue_occurrence b s = Some (k, ws, word)"
  shows "\<exists>r. ms negation_re (b, s, [])
           = (rev (k @ ws @ word) @ b, drop (length (k @ ws @ word)) s, []) # r"
    and "take (length (k @ ws @ word)) s = k @ ws @ word"
    and "k \<in> set cue_words" and "ws \<noteq> []" and "\<forall>c \<in> set ws. is_space c"
    and "word \<noteq> []" and "\<forall>c \<in> set word. is_lower_az c"
proof -
  from assms have f: "find (cue_at b s) cue_words = Some k"
    and ws: "ws = takeWhile is_space (drop (length k) s)"
    and word: "word = takeWhile is_lower_az (dropWhile is_space (drop (length k) s))"
    by (auto simp: cue_occurrence_def split: option.splits)
  from find_Some_split [OF f] obtain pre post where
    sp: "cue_words = pre @ k # post" and ck: "cue_at b s k" and np: "\<forall>y \<in> set pre. \<not> cue_at b s y"
    by blast
  show kin: "k \<in> set cue_words" by (subst sp) simp
  from ck show "ws \<noteq> []" "word \<noteq> []" by (simp_all add: cue_at_def ws word)
  show "\<forall>c \<in> set ws. is_space c" unfolding ws using set_takeWhileD by fastforce
  show "\<forall>c \<in> set word. is_lower_az c" unfolding word using set_takeWhileD by fastforce
  from ck have tk: "take (length k) s = k" by (simp add: cue_at_def)
  have dec: "s = k @ ws @ word @ dropWhile is_lower_az (dropWhile is_space (drop (length k) s))"
  proof -
    have "s = take (length k) s @ drop (length k) s" by simp
    also have "drop (length k) s = ws @ dropWhile is_space (drop (length k) s)"
      by (simp add: ws)
    also have "dropWhile is_space (drop (length k) s)
                 = word @ dropWhile is_lower_az (dropWhile is_space (drop (length k) s))"
      by (simp add: word)
    finally show ?thesis using tk by simp
  qed
  from dec show "take (length (k @ ws @ word)) s = k @ ws @ word"
    by (metis append.assoc append_eq_conv_conj)
  from dec have dr: "drop (length (k @ ws @ word)) s
                       = dropWhile is_lower_az (dropWhile is_space (drop (length k) s))"
    by (metis append.assoc append_eq_conv_conj)
  have bnd: "at_boundary b s" by (rule cue_match_Cons(1) [OF kin ck])
  define C where "C = (\<lambda>k. ms (Seq (Lit k) cue_tail_re) (b, s, []))"
  have pre: "C y = []" if "y \<in> set pre" for y
  proof -
    have "y \<in> set cue_words" using that by (subst sp) simp
    moreover have "\<not> cue_at b s y" using that np by blast
    ultimately show ?thesis unfolding C_def using bnd by (rule cue_match_Nil)
  qed
  from cue_match_Cons(2) [OF kin ck] obtain r where
    r: "C k = (rev word @ rev ws @ rev k @ b,
               dropWhile is_lower_az (dropWhile is_space (drop (length k) s)), []) # r"
    unfolding ws word C_def by blast
  have "ms negation_re (b, s, []) = concat (map C cue_words)"
    unfolding C_def using bnd by (simp only: ms_negation_re if_True)
  also have "\<dots> = concat (map C pre) @ C k @ concat (map C post)"
    by (subst sp) simp
  also have "concat (map C pre) = []"
    using pre by (rule concat_map_Nil)
  finally have "ms negation_re (b, s, [])
          = (rev (k @ ws @ word) @ b, drop (length (k @ ws @ word)) s, [])
            # (r @ concat (map C post))"
    using r dr by simp
  then show "\<exists>r. ms negation_re (b, s, [])
           = (rev (k @ ws @ word) @ b, drop (length (k @ ws @ word)) s, []) # r" by blast
qed


lemma sub_from_copy_word:
  assumes "\<And>b c t. P c \<Longrightarrow> ms r (b, c # t, []) = []" and "\<forall>c \<in> set w. P c"
  shows "sub_from r repl b (w @ t) = w @ sub_from r repl (rev w @ b) t"
  using assms(2)
proof (induction w arbitrary: b)
  case Nil
  show ?case by simp
next
  case (Cons c w)
  then have "P c" by simp
  from sub_from_copy [OF assms(1) [OF this]] Cons show ?case by simp
qed

lemma ms_space_word_non_space: "\<not> is_space c \<Longrightarrow> ms space_word_re (b, c # t, []) = []"
  by (simp add: space_word_re_def ms_Plus_Cls_Nil)

lemma ms_space_word_Nil: "ms space_word_re (b, [], []) = []"
  by (simp add: space_word_re_def ms_Plus_Cls_Nil)

lemma ms_space_word_match:
  assumes "ws \<noteq> []" and "\<forall>c \<in> set ws. is_space c"
    and "word \<noteq> []" and "\<forall>c \<in> set word. is_lower_az c"
  shows "\<exists>r. ms space_word_re (b, ws @ word, [])
           = (rev (ws @ word) @ b, [], [(2, word), (1, ws)]) # r"
proof -
  from assms(3) obtain d ds where d: "word = d # ds" by (cases word) auto
  with assms(4) have nd: "\<not> is_space d" by (simp add: lower_not_space)
  have tw: "takeWhile is_space (ws @ word) = ws" "dropWhile is_space (ws @ word) = word"
    unfolding d using takeWhile_all_append [OF assms(2) nd] dropWhile_all_append [OF assms(2) nd]
    by simp_all
  have ww: "takeWhile is_word word = word" "dropWhile is_word word = []"
    using assms(4) by (simp_all add: takeWhile_eq_all_conv dropWhile_eq_Nil_conv lower_is_word)
  have ne1: "takeWhile is_space (ws @ word) \<noteq> []" unfolding tw(1) by (rule assms(1))
  have ne2: "takeWhile is_word word \<noteq> []" unfolding ww(1) by (rule assms(3))
  show ?thesis
    by (simp add: space_word_re_def ms_Plus_Cls_Cons [OF ne1] ms_Plus_Cls_Cons [OF ne2] tw ww)
qed

lemma negation_replacement:
  assumes "k \<in> set cue_words" and "ws \<noteq> []" and "\<forall>c \<in> set ws. is_space c"
    and "word \<noteq> []" and "\<forall>c \<in> set word. is_lower_az c"
  shows "re_sub space_word_re neg_template (k @ ws @ word) = k @ ws @ ''NEG'' @ word"
proof -
  let ?repl = "neg_template"
  from cue_word_ends [OF assms(1)] have k: "\<forall>c \<in> set k. \<not> is_space c" by simp
  from ms_space_word_match [OF assms(2-5), of "rev k"] obtain r where
    r: "ms space_word_re (rev k, ws @ word, []) = (rev (ws @ word) @ rev k, [], [(2, word), (1, ws)]) # r"
    by blast
  have n: "length (ws @ word) \<noteq> 0" using assms(2) by simp
  have "sub_from space_word_re ?repl (rev k) (ws @ word)
          = ws @ ''NEG'' @ word @ sub_from space_word_re ?repl (rev (ws @ word) @ rev k) []"
    using assms(2) by (subst sub_from.simps) (simp add: r match_group_def neg_template_def)
  also have "sub_from space_word_re ?repl (rev (ws @ word) @ rev k) [] = []"
    by (rule sub_from_Nil [OF ms_space_word_Nil])
  finally have inner: "sub_from space_word_re ?repl (rev k) (ws @ word) = ws @ ''NEG'' @ word"
    by simp
  have "sub_from space_word_re ?repl [] (k @ (ws @ word))
          = k @ sub_from space_word_re ?repl (rev k @ []) (ws @ word)"
    using k by (intro sub_from_copy_word [where P = "\<lambda>c. \<not> is_space c"])
               (simp_all add: ms_space_word_non_space)
  then show ?thesis using inner by (simp add: re_sub_def)
qed

lemma negation_handle_from:
  "sub_from negation_re
     neg_repl b s
     = neg_spec_from b s"
proof (induction b s rule: neg_spec_from.induct)
  case (1 b s)
  let ?repl = "neg_repl"
  show ?case
  proof (cases "cue_occurrence b s")
    case None
    from negation_no_match [OF None] have m: "ms negation_re (b, s, []) = []" .
    show ?thesis
    proof (cases s)
      case Nil
      then show ?thesis
        using m None by (subst sub_from.simps, subst neg_spec_from.simps) simp
    next
      case (Cons c cs)
      from "1.IH"(1) [OF None Cons] show ?thesis
        using m None Cons by (subst sub_from.simps, subst neg_spec_from.simps) simp
    qed
  next
    case (Some x)
    obtain k ws word where x: "x = (k, ws, word)" by (cases x) auto
    note occ = Some [unfolded x]
    let ?L = "k @ ws @ word"
    from negation_match(1) [OF occ] obtain r where
      m: "ms negation_re (b, s, []) = (rev ?L @ b, drop (length ?L) s, []) # r" by blast
    note tk = negation_match(2) [OF occ]
    have len: "length ?L \<le> length s"
      using tk by (metis length_take min.cobounded1)
    have n: "length s - length (drop (length ?L) s) = length ?L"
      using len by simp
    have n0: "length ?L \<noteq> 0"
      using negation_match(4) [OF occ] by simp
    have repl: "?repl \<lparr>group0 = k @ ws @ word, groups = []\<rparr> = k @ ws @ ''NEG'' @ word"
      using negation_replacement [OF negation_match(3-7) [OF occ]] by (simp add: neg_repl_def)
    have ih: "sub_from negation_re ?repl (rev ?L @ b) (drop (length ?L) s)
                = neg_spec_from (rev ?L @ b) (drop (length ?L) s)"
      using "1.IH"(2) [OF Some x [symmetric] refl] .
    have "sub_from negation_re ?repl b s
            = ?repl \<lparr>group0 = take (length ?L) s, groups = []\<rparr>
              @ sub_from negation_re ?repl (rev (take (length ?L) s) @ b) (drop (length ?L) s)"
      using n n0 by (subst sub_from.simps) (simp only: m list.case prod.case Let_def if_False)
    also have "\<dots> = k @ ws @ ''NEG'' @ word @ neg_spec_from (rev ?L @ b) (drop (length ?L) s)"
      using ih tk repl by simp
    also have "\<dots> = neg_spec_from b s"
      by (subst (2) neg_spec_from.simps) (simp only: occ option.case prod.case)
    finally show ?thesis .
  qed
qed

lemma negation_handle_neg_spec: "negation_handle s = neg_spec s"
  unfolding negation_handle_def neg_spec_def re_sub_def [of negation_re]
  by (rule negation_handle_from)

lemma neg_spec_from_unchanged:
  "(\<And>b t. set t \<subseteq> set s \<Longrightarrow> cue_occurrence b t = None) \<Longrightarrow> neg_spec_from b s = s"
proof (induction s arbitrary: b)
  case Nil
  have "cue_occurrence b [] = None" by (rule Nil) simp
  then show ?case by (subst neg_spec_from.simps) simp
next
  case (Cons c cs)
  have n: "cue_occurrence b (c # cs) = None" by (rule Cons.prems) simp
  have "neg_spec_from (c # b) cs = cs"
  proof (rule Cons.IH)
    fix b' t assume "set t \<subseteq> set cs"
    then have "set t \<subseteq> set (c # cs)" by auto
    then show "cue_occurrence b' t = None" by (rule Cons.prems)
  qed
  then show ?case using n by (subst neg_spec_from.simps) simp
qed


lemma cue_occurrence_needs_letter:
  assumes "\<forall>c \<in> set s. \<not> is_lower_az c"
  shows "cue_occurrence b s = None"
proof -
  have "\<not> cue_at b s k" for k
  proof
    assume "cue_at b s k"
    then have ne: "takeWhile is_lower_az (dropWhile is_space (drop (length k) s)) \<noteq> []"
      by (simp add: cue_at_def)
    then obtain c where c: "c \<in> set (takeWhile is_lower_az (dropWhile is_space (drop (length k) s)))"
      by (cases "takeWhile is_lower_az (dropWhile is_space (drop (length k) s))") auto
    from set_takeWhileD [OF c] have "is_lower_az c"
      and "c \<in> set (dropWhile is_space (drop (length k) s))" by auto
    then have "c \<in> set s"
      using set_dropWhileD in_set_dropD by fast
    with assms \<open>is_lower_az c\<close> show False by blast
  qed
  then have "find (cue_at b s) cue_words = None" by (simp add: find_None_iff)
  then show ?thesis by (simp add: cue_occurrence_def)
qed




subsection \<open>What the matcher consumes and captures\<close>

lemma ms_consumed:
  "(b', s', g') \<in> set (ms r (b, s, g)) \<Longrightarrow> \<exists>w. s = w @ s' \<and> b' = rev w @ b"
proof (induction r "(b, s, g)" arbitrary: b s g b' s' g' rule: ms.induct)
  case (1 b s g)
  then show ?case by (auto split: list.splits if_splits)
next
  case (2 P b s g)
  then show ?case by (auto split: list.splits if_splits)
next
  case (3 w b s g)
  then show ?case by (auto split: if_splits) (metis append_take_drop_id)
next
  case (4 p q b s g)
  from "4.prems" obtain b1 s1 g1 where
    m1: "(b1, s1, g1) \<in> set (ms p (b, s, g))" and m2: "(b', s', g') \<in> set (ms q (b1, s1, g1))"
    by auto
  from "4.hyps"(1) [OF m1] obtain w1 where w1: "s = w1 @ s1" "b1 = rev w1 @ b" by blast
  from "4.hyps"(2) [OF m1 m2] obtain w2 where w2: "s1 = w2 @ s'" "b' = rev w2 @ b1" by blast
  from w1 w2 have "s = (w1 @ w2) @ s' \<and> b' = rev (w1 @ w2) @ b" by simp
  then show ?case by blast
next
  case (5 p q b s g)
  then show ?case by auto
next
  case (6 p b s g)
  from "6.prems" obtain b1 s1 g1 where
    m1: "(b1, s1, g1) \<in> set (ms p (b, s, g))" and
    m2: "(length s1 < length s \<and> (b', s', g') \<in> set (ms (Plus p) (b1, s1, g1))) \<or> (b', s', g') = (b1, s1, g1)"
    unfolding ms.simps(6) [of p b s g] by (auto split: if_splits)
  from "6.hyps"(1) [OF m1] obtain w1 where w1: "s = w1 @ s1" "b1 = rev w1 @ b" by blast
  from m2 show ?case
  proof
    assume a: "length s1 < length s \<and> (b', s', g') \<in> set (ms (Plus p) (b1, s1, g1))"
    from "6.hyps"(2) [OF m1 refl] a obtain w2 where w2: "s1 = w2 @ s'" "b' = rev w2 @ b1"
      by blast
    from w1 w2 have "s = (w1 @ w2) @ s' \<and> b' = rev (w1 @ w2) @ b" by simp
    then show ?thesis by blast
  next
    assume "(b', s', g') = (b1, s1, g1)"
    with w1 show ?thesis by auto
  qed
next
  case (7 p b s g)
  then show ?case by auto
next
  case (8 n p b s g)
  then show ?case by auto
next
  case (9 n b s g)
  then show ?case by (auto split: option.splits if_splits) (metis append_take_drop_id)
next
  case (10 b s g)
  then show ?case by (auto split: if_splits)
qed

lemma ms_groups:
  "(b', s', g') \<in> set (ms r (b, s, g)) \<Longrightarrow> (n, w) \<in> set g' \<Longrightarrow>
     (n, w) \<in> set g \<or> set w \<subseteq> set s"
proof (induction r "(b, s, g)" arbitrary: b s g b' s' g' rule: ms.induct)
  case (1 b s g)
  then show ?case by (auto split: list.splits if_splits)
next
  case (2 P b s g)
  then show ?case by (auto split: list.splits if_splits)
next
  case (3 w b s g)
  then show ?case by (auto split: if_splits)
next
  case (4 p q b s g)
  from "4.prems"(1) obtain b1 s1 g1 where
    m1: "(b1, s1, g1) \<in> set (ms p (b, s, g))" and m2: "(b', s', g') \<in> set (ms q (b1, s1, g1))"
    by auto
  from ms_consumed [OF m1] have sub: "set s1 \<subseteq> set s" by auto
  from "4.hyps"(2) [OF m1 m2 "4.prems"(2)] have "(n, w) \<in> set g1 \<or> set w \<subseteq> set s1" .
  then show ?case
  proof
    assume "(n, w) \<in> set g1"
    from "4.hyps"(1) [OF m1 this] show ?thesis .
  next
    assume "set w \<subseteq> set s1"
    with sub show ?thesis by blast
  qed
next
  case (5 p q b s g)
  from "5.prems"(1) have "(b', s', g') \<in> set (ms p (b, s, g)) \<or> (b', s', g') \<in> set (ms q (b, s, g))"
    by simp
  then show ?case using "5.hyps" "5.prems"(2) by blast
next
  case (6 p b s g)
  from "6.prems"(1) obtain b1 s1 g1 where
    m1: "(b1, s1, g1) \<in> set (ms p (b, s, g))" and
    m2: "(length s1 < length s \<and> (b', s', g') \<in> set (ms (Plus p) (b1, s1, g1))) \<or> (b', s', g') = (b1, s1, g1)"
    unfolding ms.simps(6) [of p b s g] by (auto split: if_splits)
  from ms_consumed [OF m1] have sub: "set s1 \<subseteq> set s" by auto
  from m2 show ?case
  proof
    assume a: "length s1 < length s \<and> (b', s', g') \<in> set (ms (Plus p) (b1, s1, g1))"
    from "6.hyps"(2) [OF m1 refl] a "6.prems"(2)
    have "(n, w) \<in> set g1 \<or> set w \<subseteq> set s1" by blast
    then show ?thesis
    proof
      assume "(n, w) \<in> set g1"
      from "6.hyps"(1) [OF m1 this] show ?thesis .
    next
      assume "set w \<subseteq> set s1"
      with sub show ?thesis by blast
    qed
  next
    assume "(b', s', g') = (b1, s1, g1)"
    with "6.prems"(2) have "(n, w) \<in> set g1" by simp
    from "6.hyps"(1) [OF m1 this] show ?thesis .
  qed
next
  case (7 p b s g)
  from "7.prems"(1) have "(b', s', g') \<in> set (ms p (b, s, g)) \<or> (b', s', g') = (b, s, g)"
    by auto
  then show ?case using "7.hyps" "7.prems"(2) by blast
next
  case (8 m p b s g)
  from "8.prems"(1) obtain g1 where
    m1: "(b', s', g1) \<in> set (ms p (b, s, g))" and g': "g' = (m, take (length s - length s') s) # g1"
    by auto
  from "8.prems"(2) g' have "(n, w) \<in> set g1 \<or> w = take (length s - length s') s" by auto
  then show ?case
  proof
    assume "(n, w) \<in> set g1"
    from "8.hyps" [OF m1 this] show ?thesis .
  next
    assume "w = take (length s - length s') s"
    then have "set w \<subseteq> set s" by (simp add: set_take_subset)
    then show ?thesis by simp
  qed
next
  case (9 n b s g)
  then show ?case by (auto split: option.splits if_splits)
next
  case (10 b s g)
  then show ?case by (auto split: if_splits)
qed

lemma sub_from_subset:
  assumes "\<And>m. set (repl m) \<subseteq> set (group0 m) \<union> (\<Union>p \<in> set (groups m). set (snd p))"
  shows "set (sub_from r repl b s) \<subseteq> set s"
proof (induction s arbitrary: b rule: length_induct)
  case (1 s)
  show ?case
  proof (cases "ms r (b, s, [])")
    case Nil
    show ?thesis
    proof (cases s)
      case Nil
      then show ?thesis using \<open>ms r (b, s, []) = []\<close> by (subst sub_from.simps) simp
    next
      case (Cons c cs)
      have "set (sub_from r repl (c # b) cs) \<subseteq> set cs" using "1.IH" Cons by simp
      then show ?thesis
        using \<open>ms r (b, s, []) = []\<close> Cons by (subst sub_from.simps) auto
    qed
  next
    case (Cons m rest)
    obtain b' s' g' where m: "m = (b', s', g')" by (cases m) auto
    have mem: "(b', s', g') \<in> set (ms r (b, s, []))" using Cons m by simp
    have grp: "(\<Union>p \<in> set g'. set (snd p)) \<subseteq> set s"
      using ms_groups [OF mem] by fastforce
    define n where "n = length s - length s'"
    have rp: "set (repl \<lparr>group0 = take n s, groups = g'\<rparr>) \<subseteq> set s"
      using assms [of "\<lparr>group0 = take n s, groups = g'\<rparr>"] grp set_take_subset [of n s]
      by auto
    show ?thesis
    proof (cases "n = 0")
      case True
      have tail: "set (case s of [] \<Rightarrow> [] | c # cs \<Rightarrow> c # sub_from r repl (c # b) cs) \<subseteq> set s"
      proof (cases s)
        case Nil
        then show ?thesis by simp
      next
        case (Cons c cs)
        have "set (sub_from r repl (c # b) cs) \<subseteq> set cs" using "1.IH" Cons by simp
        then show ?thesis using Cons by auto
      qed
      have "sub_from r repl b s = repl \<lparr>group0 = [], groups = g'\<rparr>
              @ (case s of [] \<Rightarrow> [] | c # cs \<Rightarrow> c # sub_from r repl (c # b) cs)"
        using True Cons m by (subst sub_from.simps) (simp add: n_def)
      then show ?thesis using rp tail True by simp
    next
      case False
      then have "length (drop n s) < length s" by (auto simp: n_def)
      then have "set (sub_from r repl (rev (take n s) @ b) (drop n s)) \<subseteq> set (drop n s)"
        using "1.IH" by blast
      then have tail: "set (sub_from r repl (rev (take n s) @ b) (drop n s)) \<subseteq> set s"
        using set_drop_subset [of n s] by blast
      have "sub_from r repl b s = repl \<lparr>group0 = take n s, groups = g'\<rparr>
              @ sub_from r repl (rev (take n s) @ b) (drop n s)"
        using False Cons m by (subst sub_from.simps) (simp add: n_def Let_def)
      then show ?thesis using rp tail by simp
    qed
  qed
qed

lemma remove_noise_texts_subset: "set (remove_noise_texts s) \<subseteq> set s"
proof -
  have del: "set (re_sub r (\<lambda>m. []) t) \<subseteq> set t" for r t
    unfolding re_sub_def by (rule sub_from_subset) simp
  have g1: "set (re_sub r (\<lambda>m. match_group m 1) t) \<subseteq> set t" for r t
    unfolding re_sub_def
  proof (rule sub_from_subset)
    fix m :: rmatch
    show "set (match_group m 1) \<subseteq> set (group0 m) \<union> (\<Union>p \<in> set (groups m). set (snd p))"
    proof (cases "map_of (groups m) 1")
      case None
      then show ?thesis by (simp add: match_group_def)
    next
      case (Some w)
      from map_of_SomeD [OF Some] have "set (snd (1::nat, w)) \<subseteq> (\<Union>p \<in> set (groups m). set (snd p))"
        by blast
      then show ?thesis using Some by (auto simp: match_group_def)
    qed
  qed
  show ?thesis
    unfolding remove_noise_texts_def Let_def
    using del g1 by (meson subset_trans)
qed

subsection \<open>The form of the cleaned text\<close>

lemma py_split_chars: "w \<in> set (py_split s) \<Longrightarrow> set w \<subseteq> set s"
proof (induction s arbitrary: w rule: py_split.induct)
  case (1 s)
  show ?case
  proof (cases "dropWhile is_space s")
    case Nil
    have "py_split s = []" by (subst py_split.simps) (simp only: Nil list.case)
    with "1.prems" show ?thesis by simp
  next
    case (Cons c cs)
    have sub: "set (c # cs) \<subseteq> set s"
      using set_dropWhileD [of _ is_space s] Cons by auto
    have "py_split s = (c # takeWhile non_space cs) # py_split (dropWhile non_space cs)"
      by (subst py_split.simps) (simp only: Cons list.case)
    with "1.prems" have "w = c # takeWhile non_space cs \<or> w \<in> set (py_split (dropWhile non_space cs))"
      by simp
    then show ?thesis
    proof
      assume "w = c # takeWhile non_space cs"
      then have "set w \<subseteq> set (c # cs)" using set_takeWhileD [of _ non_space cs] by auto
      with sub show ?thesis by blast
    next
      assume "w \<in> set (py_split (dropWhile non_space cs))"
      from "1.IH" [OF Cons this] have "set w \<subseteq> set (dropWhile non_space cs)" .
      then have "set w \<subseteq> set (c # cs)" using set_dropWhileD [of _ non_space cs] by auto
      with sub show ?thesis by blast
    qed
  qed
qed

lemma set_py_join: "set (py_join '' '' ws) \<subseteq> insert CHR '' '' (\<Union>w \<in> set ws. set w)"
  by (induction "'' ''" ws rule: py_join.induct) auto

lemma remove_stopwords_subset: "set (remove_stopwords E s nk) \<subseteq> insert CHR '' '' (set s)"
proof -
  have "(\<Union>w \<in> set (filter P (py_split s)). set w) \<subseteq> set s" for P
    using py_split_chars by fastforce
  then show ?thesis
    unfolding remove_stopwords_def Let_def using set_py_join by (meson insert_mono subset_trans)
qed

lemma py_split_all_space:
  assumes "\<forall>c \<in> set s. is_space c"
  shows "py_split s = []"
proof -
  have d: "dropWhile is_space s = []" using assms by (simp add: dropWhile_eq_Nil_conv)
  show ?thesis by (subst py_split.simps) (simp only: d list.case)
qed





















lemma lemmatize_loop_total:
  "\<forall>p \<in> set xs. snd p \<noteq> [] \<Longrightarrow> \<exists>r. lemmatize_loop E xs = Inr r"
proof (induction xs)
  case Nil
  show ?case by simp
next
  case (Cons p xs)
  obtain word tag where p: "p = (word, tag)" by (cases p) auto
  with Cons.prems obtain t ts where t: "tag = t # ts" by (cases tag) auto
  from Cons obtain r where "lemmatize_loop E xs = Inr r" by auto
  then show ?case by (simp add: p t Let_def)
qed

lemma pre_alpha_no_letter:
  assumes "\<forall>c \<in> set (contractions_fix E (py_lower text)). non_alpha c"
  shows "\<forall>c \<in> set (pre_alpha E hn text). non_alpha c"
proof -
  let ?t1 = "remove_noise_texts (expand_contractions E (py_lower text))"
  have t1: "\<forall>c \<in> set ?t1. non_alpha c"
    using assms remove_noise_texts_subset [of "contractions_fix E (py_lower text)"]
    by (auto simp: expand_contractions_def)
  show ?thesis
  proof (cases hn)
    case False
    then show ?thesis using t1 by (simp add: pre_alpha_def Let_def)
  next
    case True
    let ?t2 = "remove_stopwords E ?t1 True"
    have t2: "\<forall>c \<in> set ?t2. non_alpha c"
      using t1 remove_stopwords_subset [of E ?t1 True] non_alpha_space by auto
    have "neg_spec_from [] ?t2 = ?t2"
    proof (rule neg_spec_from_unchanged)
      fix b t assume "set t \<subseteq> set ?t2"
      with t2 have "\<forall>c \<in> set t. \<not> is_lower_az c"
        by (auto simp: non_alpha_def is_alpha_az_def)
      then show "cue_occurrence b t = None" by (rule cue_occurrence_needs_letter)
    qed
    then show ?thesis
      using True t2 by (simp add: pre_alpha_def Let_def negation_handle_neg_spec neg_spec_def)
  qed
qed

lemma remove_spaces_Nil: "remove_spaces [] = []"
  by (simp add: remove_spaces_def re_sub_def sub_from_Nil ms_multi_spaces_Nil)

lemma short_words_no_letter:
  assumes "\<forall>c \<in> set s. non_alpha c"
  shows "remove_spaces (remove_short_words (remove_non_alpha s)) = []"
proof -
  have "\<forall>c \<in> set (remove_non_alpha s). is_space c"
    using assms by (simp add: remove_non_alpha_map space_is_space)
  then have "py_split (remove_non_alpha s) = []" by (rule py_split_all_space)
  then show ?thesis by (simp add: remove_short_words_def remove_spaces_Nil)
qed

text \<open>
  C6. \<open>data_cleaning\<close> returns a string for every text and every setting of the flags, the
  lemmatizing run whenever the tagger gives no empty tag. When the expanded text holds no
  letter \<open>a\<close> to \<open>z\<close> or \<open>A\<close> to \<open>Z\<close> (the empty text, pure punctuation, digits), the
  result is the empty string; the lemmatizing run needs a tagger that returns no tags for no
  words.
\<close>

theorem data_cleaning_never_raises:
  assumes "is_lemmatized \<longrightarrow> (\<forall>ws. list_all (\<lambda>p. snd p \<noteq> []) (pos_tag E ws))"
  shows "(\<exists>out. data_cleaning E text handle_neg remove_all_stopword is_lemmatized = Inr out)
         \<and> (list_all non_alpha (contractions_fix E (py_lower text))
              \<and> (is_lemmatized \<longrightarrow> pos_tag E [] = [])
            \<longrightarrow> data_cleaning E text handle_neg remove_all_stopword is_lemmatized = Inr [])"
proof
  show "\<exists>out. data_cleaning E text handle_neg remove_all_stopword is_lemmatized = Inr out"
  proof (cases is_lemmatized)
    case False
    then show ?thesis by (simp add: data_cleaning_def Let_def)
  next
    case True
    with assms have "\<And>s. \<exists>r. lemmatize_loop E (pos_tag E (py_split s)) = Inr r"
      by (intro lemmatize_loop_total) (simp add: list_all_iff)
    then have "\<And>s. \<exists>r. lemmatize E s = Inr r"
      by (simp add: lemmatize_def split: sum.splits) (metis sum.distinct(1))
    then obtain r where
      "lemmatize E (remove_spaces (remove_short_words (remove_non_alpha (pre_alpha E handle_neg text)))) = Inr r"
      by blast
    then show ?thesis
      using True by (simp add: data_cleaning_def pre_alpha_def Let_def)
  qed
  show "list_all non_alpha (contractions_fix E (py_lower text))
          \<and> (is_lemmatized \<longrightarrow> pos_tag E [] = [])
        \<longrightarrow> data_cleaning E text handle_neg remove_all_stopword is_lemmatized = Inr []"
  proof
    assume a: "list_all non_alpha (contractions_fix E (py_lower text))
                 \<and> (is_lemmatized \<longrightarrow> pos_tag E [] = [])"
    then have "\<forall>c \<in> set (contractions_fix E (py_lower text)). non_alpha c"
      by (simp add: list_all_iff)
    from short_words_no_letter [OF pre_alpha_no_letter [OF this, of handle_neg]]
    have t7: "remove_spaces (remove_short_words (remove_non_alpha (pre_alpha E handle_neg text))) = []" .
    have st: "remove_stopwords E [] False = []"
      by (simp add: remove_stopwords_def py_split_Nil)
    have strip: "py_strip [] = []" by (simp add: py_strip_def)
    have lem: "is_lemmatized \<Longrightarrow> lemmatize E [] = Inr []"
      using a by (simp add: lemmatize_def py_split_Nil)
    have "data_cleaning E text handle_neg remove_all_stopword is_lemmatized
            = (case (if is_lemmatized then lemmatize E [] else Inr []) of
                 Inl e \<Rightarrow> Inl e
               | Inr t \<Rightarrow> Inr (py_strip (if remove_all_stopword then remove_stopwords E t False else t)))"
      using t7 by (simp add: data_cleaning_def pre_alpha_def Let_def)
    then show "data_cleaning E text handle_neg remove_all_stopword is_lemmatized = Inr []"
      using lem st strip by (cases is_lemmatized) simp_all
  qed
qed

subsection \<open>Recorded examples\<close>

text \<open>
  C3. \<open>negation_handle\<close> applied to \<open>I do not like the food. I like the movie.\<close> returns
  \<open>I do not NEGlike the food. I like the movie.\<close>, the output the notebook records.
\<close>

theorem negation_handle_example:
  "negation_handle ''I do not like the food. I like the movie.''
     = ''I do not NEGlike the food. I like the movie.''"
  by code_simp

text \<open>
  C7, as stated, fails: on the string without whitespace the collapsed text is one
  whitespace-free token with an \<open>@\<close> inside, which the e-mail pattern removes as a whole.
  The result is empty, so no word \<open>feelings\<close> is left in it.
\<close>

theorem noise_example_counterexample: "remove_noise_texts noise_example = []"
  by code_simp

text \<open>
  C7, amended. On that string the first substitution collapses the runs of dots and of
  \<open>s\<close> to one character each, the e-mail pattern then removes the whole collapsed text, and
  the result is the empty string. With whitespace between the parts, the mention and the
  hashtag are removed and the word becomes \<open>feelings\<close>.
\<close>

theorem noise_example_amended:
  "re_sub repeating_suff_re (\<lambda>m. match_group m 1) noise_example
     = ''.@someone_on_Twitter.feelings.#Tag''
   \<and> re_sub email_re (\<lambda>m. []) ''.@someone_on_Twitter.feelings.#Tag'' = []
   \<and> remove_noise_texts noise_example = []
   \<and> remove_noise_texts ''... @someone_on_Twitter ... feelingssssssssssss ... #Tag''
       = ''.  . feelings . ''"
  by code_simp

lemma tweet_example_tail:
  "py_strip (remove_spaces (remove_short_words (remove_non_alpha
     (remove_noise_texts tweet_example_expanded)))) = tweet_example_cleaned"
  by code_simp

lemma tweet_example_the: "''the'' \<in> set (py_split tweet_example_cleaned)"
  by code_simp

text \<open>
  Whatever the expander does: once \<open>the\<close> is a stop word and all stop words are removed,
  the recorded output, which contains \<open>the\<close>, cannot be the result.
\<close>

lemma tweet_example_needs_the:
  assumes "''the'' \<in> set (stop_words E)"
  shows "data_cleaning E text handle_neg True False \<noteq> Inr tweet_example_cleaned"
proof
  assume "data_cleaning E text handle_neg True False = Inr tweet_example_cleaned"
  from py_split_data_cleaning [OF this] tweet_example_the
  have "''the'' \<in> set (kept_words E True
           (py_split (remove_non_alpha (pre_alpha E handle_neg text))))"
    by simp
  with assms show False by (simp add: kept_words_def Let_def)
qed

text \<open>
  C1, as stated, fails: with \<open>handle_neg\<close> and \<open>remove_all_stopword\<close> set, the stop words
  are gone and the word behind \<open>not\<close> carries the marker, so the result is not the text that
  the notebook records.
\<close>

theorem tweet_example_flags_counterexample:
  "data_cleaning sample_env tweet_example True True False
     = Inr ''got email think troll told mail really NEGlike dog like cat''
   \<and> data_cleaning sample_env tweet_example True True False \<noteq> Inr tweet_example_cleaned"
proof -
  have "data_cleaning sample_env tweet_example True True False
          = Inr ''got email think troll told mail really NEGlike dog like cat''"
    by code_simp
  moreover have "''got email think troll told mail really NEGlike dog like cat''
                   \<noteq> tweet_example_cleaned"
    by (simp add: tweet_example_cleaned_def)
  ultimately show ?thesis by simp
qed

text \<open>
  C1, amended. With the default flags (no negation handling, no removal of all stop words,
  no lemmatization), which is how the notebook calls it, and an expander that turns
  \<open>it's\<close> into \<open>it is\<close> and \<open>don't\<close> into \<open>do not\<close> in the lowercased tweet,
  \<open>data_cleaning\<close> returns exactly the recorded text.
\<close>

theorem tweet_example_default_flags:
  assumes "contractions_fix E (py_lower tweet_example) = tweet_example_expanded"
  shows "data_cleaning E tweet_example False False False = Inr tweet_example_cleaned"
  using assms tweet_example_tail
  by (simp add: data_cleaning_def expand_contractions_def Let_def)

theorem tweet_example_default_flags_witness:
  "contractions_fix sample_env (py_lower tweet_example) = tweet_example_expanded
   \<and> data_cleaning sample_env tweet_example False False False = Inr tweet_example_cleaned"
proof -
  have h: "contractions_fix sample_env (py_lower tweet_example) = tweet_example_expanded"
    by code_simp
  from tweet_example_default_flags [OF h] h show ?thesis by simp
qed


theorem data_cleaning_never_raises_witness:
  "(\<forall>ws. list_all (\<lambda>p. snd p \<noteq> []) (pos_tag sample_env ws))
   \<and> list_all non_alpha (contractions_fix sample_env (py_lower ''?!... :-) 42''))
   \<and> pos_tag sample_env [] = []
   \<and> data_cleaning sample_env ''?!... :-) 42'' True True True = Inr []"
proof -
  have h1: "\<forall>ws. list_all (\<lambda>p. snd p \<noteq> []) (pos_tag sample_env ws)"
    by (simp add: sample_env_def list_all_iff)
  have h2: "list_all non_alpha (contractions_fix sample_env (py_lower ''?!... :-) 42''))"
    by code_simp
  have h3: "pos_tag sample_env [] = []"
    by (simp add: sample_env_def)
  from data_cleaning_never_raises [of True sample_env "''?!... :-) 42''" True True] h1 h2 h3
  have "data_cleaning sample_env ''?!... :-) 42'' True True True = Inr []"
    by blast
  with h1 h2 h3 show ?thesis by blast
qed

end
